theory Spec2Isabelle
  imports Main
begin

section \<open>Strings\<close>

text \<open>
  A JavaScript string is modelled as a \<open>string\<close> (a list of \<open>char\<close>), one \<open>char\<close> per
  code unit, for the code units U+0000 to U+00FF. On that range \<open>toLowerCase\<close> maps
  A to Z and the Latin-1 capitals U+00C0 to U+00DE (U+00D7, the multiplication sign, apart)
  to the letter 32 code units later, and \<open>trim\<close> removes TAB, LF, VT, FF, CR, SPACE and
  NBSP from both ends.
\<close>

definition toLowerChar :: "char \<Rightarrow> char" where
  "toLowerChar c =
     (let n = (of_char c :: nat) in
      if (65 \<le> n \<and> n \<le> 90) \<or> (192 \<le> n \<and> n \<le> 222 \<and> n \<noteq> 215)
      then char_of (n + 32) else c)"

definition toLowerCase :: "string \<Rightarrow> string" where
  "toLowerCase s = map toLowerChar s"

definition isWhiteSpace :: "char \<Rightarrow> bool" where
  "isWhiteSpace c =
     (let n = (of_char c :: nat) in (9 \<le> n \<and> n \<le> 13) \<or> n = 32 \<or> n = 160)"

definition trim :: "string \<Rightarrow> string" where
  "trim s = rev (dropWhile isWhiteSpace (rev (dropWhile isWhiteSpace s)))"

definition startsWith :: "string \<Rightarrow> string \<Rightarrow> bool" where
  "startsWith s pre = (take (length pre) s = pre)"

definition endsWith :: "string \<Rightarrow> string \<Rightarrow> bool" where
  "endsWith s suf = (length suf \<le> length s \<and> drop (length s - length suf) s = suf)"

text \<open>\<open>s.includes(sub)\<close>: \<open>sub\<close> occurs in \<open>s\<close> at some position.\<close>

fun str_includes :: "string \<Rightarrow> string \<Rightarrow> bool" where
  "str_includes [] sub = (sub = [])"
| "str_includes (c # cs) sub = (startsWith (c # cs) sub \<or> str_includes cs sub)"

text \<open>
  \<open>s.split(sep)\<close> for a one-character separator: the pieces between the separators, so
  one piece more than there are separators (the empty string gives one empty piece).
\<close>

fun split :: "char \<Rightarrow> string \<Rightarrow> string list" where
  "split sep [] = [[]]"
| "split sep (c # cs) =
     (if c = sep then [] # split sep cs
      else (case split sep cs of
              [] \<Rightarrow> [[c]]
            | p # ps \<Rightarrow> (c # p) # ps))"

text \<open>
  \<open>s.replace(pat, rep)\<close> with a string pattern: the first occurrence of \<open>pat\<close> in
  \<open>s\<close>, wherever it stands, is replaced; a string without the pattern is unchanged.
\<close>

fun replace :: "string \<Rightarrow> string \<Rightarrow> string \<Rightarrow> string" where
  "replace [] pat rep = (if pat = [] then rep else [])"
| "replace (c # cs) pat rep =
     (if startsWith (c # cs) pat then rep @ drop (length pat) (c # cs)
      else c # replace cs pat rep)"

section \<open>The mapping registry (util/csv-mappings.ts)\<close>

text \<open>
  \<open>IndiewebMappings.mappings\<close> is a \<open>Map<string, string[]>\<close>: a partial function from
  the handle to the array of its domains.
\<close>

type_synonym Mappings = "string \<rightharpoonup> string list"

text \<open>
  What \<open>load\<close> finds at \<open>csvPath\<close>: no file (\<open>fs.existsSync\<close> is false), a file whose
  \<open>fs.readFileSync\<close> throws, or a file and its content.
\<close>

datatype CsvFile = Missing | Unreadable | Content string

datatype LoadError = ReadFailed

text \<open>
  The loop over the non-blank lines of the file, \<open>lineNumber\<close> being the count of the
  lines before this one. It fills the local \<open>newMappings\<close>; the field \<open>this.mappings\<close>
  is not touched before the loop ends.
\<close>

fun loadLines :: "nat \<Rightarrow> Mappings \<Rightarrow> string list \<Rightarrow> Mappings" where
  "loadLines lineNumber newMappings [] = newMappings"
| "loadLines lineNumber newMappings (line # rest) =
     (let lineNumber' = lineNumber + 1 in
      if lineNumber' = 1 \<and> str_includes (toLowerCase line) ''handle''
      then loadLines lineNumber' newMappings rest
      else if trim line = [] \<or> startsWith (trim line) ''#''
      then loadLines lineNumber' newMappings rest
      else
        (let parts = map trim (split CHR '','' line) in
         if length parts < 2 then loadLines lineNumber' newMappings rest
         else
           (let handle = toLowerCase (parts ! 0);
                domain = toLowerCase (parts ! 1) in
            if handle = [] \<or> domain = [] then loadLines lineNumber' newMappings rest
            else
              (let existing = (case newMappings handle of None \<Rightarrow> [] | Some ds \<Rightarrow> ds) in
               loadLines lineNumber' (newMappings(handle \<mapsto> existing @ [domain])) rest))))"

text \<open>The table a file content parses to: the lines with a non-empty trim, through the loop.\<close>

definition parseContent :: "string \<Rightarrow> Mappings" where
  "parseContent content =
     loadLines 0 Map.empty (filter (\<lambda>line. trim line \<noteq> []) (split CHR 0x0A content))"

text \<open>
  The body of the \<open>try\<close> block of \<open>load\<close>, from the table before to the table after, or
  the exception. A missing file is not an exception: the branch clears the table and
  returns.
\<close>

fun load_try :: "CsvFile \<Rightarrow> Mappings \<Rightarrow> LoadError + Mappings" where
  "load_try Missing mappings = Inr Map.empty"
| "load_try Unreadable mappings = Inl ReadFailed"
| "load_try (Content content) mappings = Inr (parseContent content)"

text \<open>\<open>load\<close>: the \<open>catch\<close> logs the exception and keeps the table as it was.\<close>

definition load :: "CsvFile \<Rightarrow> Mappings \<Rightarrow> Mappings" where
  "load file mappings =
     (case load_try file mappings of
        Inl err \<Rightarrow> mappings
      | Inr newMappings \<Rightarrow> newMappings)"

definition getDomainsForHandle :: "Mappings \<Rightarrow> string \<Rightarrow> string list" where
  "getDomainsForHandle mappings handle =
     (case mappings (toLowerCase handle) of None \<Rightarrow> [] | Some ds \<Rightarrow> ds)"

text \<open>
  The registry after a history of loads (the first by \<open>start\<close>, the others by the
  timer), from the empty table of the constructor.
\<close>

definition registryAfter :: "CsvFile list \<Rightarrow> Mappings" where
  "registryAfter files = foldl (\<lambda>mappings file. load file mappings) Map.empty files"

section \<open>Link extraction (util/indieweb.ts)\<close>

text \<open>
  A post record, as far as the code reads it: the text, the optional facets with their
  features, and the optional embed. \<open>isLink\<close> and \<open>isMain\<close> of the lexicon test the
  tag of a feature and of an embed, which are the constructors here.
\<close>

datatype Feature = Link string | OtherFeature

record Facet =
  features :: "Feature list"

datatype Embed = External string | OtherEmbed

record PostRecord =
  post_text :: string
  facets :: "Facet list option"
  embed :: "Embed option"

fun linkOfFeature :: "Feature \<Rightarrow> string list" where
  "linkOfFeature (Link u) = [u]"
| "linkOfFeature OtherFeature = []"

definition extractAllLinks :: "PostRecord \<Rightarrow> string list" where
  "extractAllLinks p =
     (case facets p of
        None \<Rightarrow> []
      | Some fs \<Rightarrow> concat (map (\<lambda>facet. concat (map linkOfFeature (features facet))) fs))
     @ (case embed p of
          Some (External u) \<Rightarrow> [u]
        | _ \<Rightarrow> [])"

text \<open>
  \<open>getDomainFromUrl\<close>. The URL parser is the platform's \<open>new URL(url)\<close>; it is a
  parameter \<open>hostnameOf\<close>, which gives the \<open>hostname\<close> of the parsed URL, or \<open>None\<close>
  where the constructor throws. The \<open>catch\<close> turns the exception into \<open>null\<close>.
\<close>

definition getDomainFromUrl :: "(string \<Rightarrow> string option) \<Rightarrow> string \<Rightarrow> string option" where
  "getDomainFromUrl hostnameOf url =
     (case hostnameOf url of
        None \<Rightarrow> None
      | Some hostname \<Rightarrow> Some (toLowerCase hostname))"

section \<open>The identity resolver adapter (subscription.ts)\<close>

text \<open>
  What \<open>didResolver.resolve(did)\<close> does: it throws, or gives \<open>null\<close>, or a document
  whose \<open>alsoKnownAs\<close> is optional. The resolver has a state of its own (a cache, the
  network), so a call takes that state and returns the next one.
\<close>

record DidDocument =
  alsoKnownAs :: "string list option"

datatype ResolveOutcome = Throws | NoDocument | Document DidDocument

datatype ResolveError = ResolveFailed

text \<open>The body of the \<open>try\<close> block: \<open>null\<close> is \<open>None\<close>, an exception is \<open>Inl\<close>.\<close>

fun getHandleFromDid_try :: "ResolveOutcome \<Rightarrow> ResolveError + string option" where
  "getHandleFromDid_try Throws = Inl ResolveFailed"
| "getHandleFromDid_try NoDocument = Inr None"
| "getHandleFromDid_try (Document didDoc) =
     (case alsoKnownAs didDoc of
        None \<Rightarrow> Inr None
      | Some [] \<Rightarrow> Inr None
      | Some (first # others) \<Rightarrow>
          if first = [] then Inr None
          else Inr (Some (replace first ''at://'' [])))"

text \<open>
  \<open>getHandleFromDid\<close>: one call of the resolver, the \<open>try\<close> body on its outcome, and
  the \<open>catch\<close>, which logs and returns \<open>null\<close>.
\<close>

definition getHandleFromDid ::
  "('r \<Rightarrow> string \<Rightarrow> ResolveOutcome \<times> 'r) \<Rightarrow> 'r \<Rightarrow> string \<Rightarrow> string option \<times> 'r" where
  "getHandleFromDid resolve r did =
     (case resolve r did of
        (outcome, r') \<Rightarrow>
          (case getHandleFromDid_try outcome of
             Inl err \<Rightarrow> (None, r')
           | Inr handle \<Rightarrow> (handle, r')))"

section \<open>The index tables (the database schema)\<close>

record Post =
  uri :: string
  cid :: string
  indexedAt :: string

record IndiewebPost = Post +
  author :: string

text \<open>
  Modelled from the spec: the persistent store and the key of its tables (the
  migrations are not among the sources). A table is the list of its rows in insertion
  order, \<open>uri\<close> being the unique key. \<open>deleteFrom(t).where('uri', 'in', uris)\<close> removes
  every row whose uri is listed; \<open>insertInto(t).values(rows).onConflict(doNothing)\<close>
  adds the rows one after the other and skips a row whose uri the table holds by then.
\<close>

definition deleteFrom :: "'a Post_scheme list \<Rightarrow> string list \<Rightarrow> 'a Post_scheme list" where
  "deleteFrom table uris = filter (\<lambda>row. uri row \<notin> set uris) table"

fun insertInto :: "'a Post_scheme list \<Rightarrow> 'a Post_scheme list \<Rightarrow> 'a Post_scheme list" where
  "insertInto table [] = table"
| "insertInto table (v # vs) =
     insertInto (if uri v \<in> set (map uri table) then table else table @ [v]) vs"

section \<open>The firehose subscription (subscription.ts)\<close>

text \<open>
  The operations of a commit, as \<open>getOpsByType\<close> returns them; \<open>handleEvent\<close> reads the
  posts only.
\<close>

record CreateOp =
  op_uri :: string
  op_cid :: string
  op_author :: string
  op_record :: PostRecord

record DeleteOp =
  del_uri :: string

record PostOps =
  creates :: "CreateOp list"
  deletes :: "DeleteOp list"

record OperationsByType =
  posts :: PostOps

text \<open>
  What \<open>handleEvent\<close> calls and does not define: \<open>isCommit\<close> and \<open>getOpsByType\<close> on the
  events of the transport (a type parameter), the resolver, the URL parser, and the
  clock: \<open>now k\<close> is \<open>new Date().toISOString()\<close> at the \<open>k\<close>-th reading of the clock.
\<close>

record ('e, 'r) Env =
  isCommit :: "'e \<Rightarrow> bool"
  getOpsByType :: "'e \<Rightarrow> OperationsByType"
  resolve :: "'r \<Rightarrow> string \<Rightarrow> ResolveOutcome \<times> 'r"
  urlHostname :: "string \<Rightarrow> string option"
  now :: "nat \<Rightarrow> string"

text \<open>
  What \<open>handleEvent\<close> changes: the two tables, the resolver's state, and the count of
  the readings of the clock.
\<close>

record 'r Indexer =
  post :: "Post list"
  indieweb_post :: "IndiewebPost list"
  didResolver :: 'r
  clock :: nat

text \<open>
  The loop over the links of one post (\<open>hasMatch\<close> and its \<open>break\<close>): \<open>True\<close> at the
  first link that matches. A link whose domain is \<open>null\<close> or the empty string is passed
  over (\<open>if (!domain) continue\<close>).
\<close>

fun hasMatch :: "(string \<Rightarrow> string option) \<Rightarrow> string \<Rightarrow> string list \<Rightarrow> string list \<Rightarrow> bool" where
  "hasMatch hostnameOf handle csvMappedDomains [] = False"
| "hasMatch hostnameOf handle csvMappedDomains (link # rest) =
     (case getDomainFromUrl hostnameOf link of
        None \<Rightarrow> hasMatch hostnameOf handle csvMappedDomains rest
      | Some domain \<Rightarrow>
          if domain = [] then hasMatch hostnameOf handle csvMappedDomains rest
          else if \<not> endsWith handle ''.bsky.social''
                  \<and> toLowerCase domain = toLowerCase handle
          then True
          else if list_ex (\<lambda>mappedDomain. mappedDomain = toLowerCase domain) csvMappedDomains
          then True
          else hasMatch hostnameOf handle csvMappedDomains rest)"

text \<open>
  The loop over the created posts. It carries \<open>indiewebPostsToCreate\<close>, the resolver's
  state and the clock. A post without links is passed over before the resolver is
  called; so is a post whose handle is \<open>null\<close> or the empty string (\<open>if (!handle)\<close>).
\<close>

fun stageCreates ::
  "('e, 'r) Env \<Rightarrow> Mappings \<Rightarrow> CreateOp list \<Rightarrow> IndiewebPost list \<times> 'r \<times> nat
     \<Rightarrow> IndiewebPost list \<times> 'r \<times> nat" where
  "stageCreates env mappings [] st = st"
| "stageCreates env mappings (create # rest) (indiewebPostsToCreate, r, k) =
     (let links = extractAllLinks (op_record create) in
      if links = [] then stageCreates env mappings rest (indiewebPostsToCreate, r, k)
      else
        (case getHandleFromDid (resolve env) r (op_author create) of
           (None, r') \<Rightarrow> stageCreates env mappings rest (indiewebPostsToCreate, r', k)
         | (Some handle, r') \<Rightarrow>
             if handle = [] then stageCreates env mappings rest (indiewebPostsToCreate, r', k)
             else
               (let csvMappedDomains = getDomainsForHandle mappings handle in
                if hasMatch (urlHostname env) handle csvMappedDomains links
                then stageCreates env mappings rest
                       (indiewebPostsToCreate @
                          [\<lparr>uri = op_uri create, cid = op_cid create, indexedAt = now env k,
                            author = op_author create\<rparr>],
                        r', k + 1)
                else stageCreates env mappings rest (indiewebPostsToCreate, r', k))))"

text \<open>
  The keyword branch: the created posts whose lower-cased text includes \<open>alf\<close>, and the
  row of each, read off the clock one after the other from its \<open>k\<close>-th reading on.
\<close>

definition alfCreates :: "CreateOp list \<Rightarrow> CreateOp list" where
  "alfCreates cs =
     filter (\<lambda>create. str_includes (toLowerCase (post_text (op_record create))) ''alf'') cs"

definition postsToCreate :: "('e, 'r) Env \<Rightarrow> nat \<Rightarrow> CreateOp list \<Rightarrow> Post list" where
  "postsToCreate env k cs =
     map (\<lambda>(i, create). \<lparr>uri = op_uri create, cid = op_cid create, indexedAt = now env i\<rparr>)
       (enumerate k (alfCreates cs))"

text \<open>
  \<open>handleEvent\<close>. In each table the deletion runs before the insertion, and each runs
  only for a non-empty list. Two things are taken as given: the statements of the store
  succeed (a failure of the store leaves \<open>handleEvent\<close> as an exception, which is not
  modelled), and the registry's table is the same for all posts of one event (the timer's
  reload falls between two events).
\<close>

definition handleEvent :: "('e, 'r) Env \<Rightarrow> Mappings \<Rightarrow> 'r Indexer \<Rightarrow> 'e \<Rightarrow> 'r Indexer" where
  "handleEvent env mappings s evt =
     (if \<not> isCommit env evt then s
      else
        (let ops = getOpsByType env evt;
             postsToDelete = map del_uri (deletes (posts ops));
             newPosts = postsToCreate env (clock s) (creates (posts ops));
             post1 = (if postsToDelete \<noteq> [] then deleteFrom (post s) postsToDelete else post s);
             post2 = (if newPosts \<noteq> [] then insertInto post1 newPosts else post1);
             indiewebPostsToDelete = map del_uri (deletes (posts ops));
             (indiewebPostsToCreate, r', k') =
               stageCreates env mappings (creates (posts ops))
                 ([], didResolver s, clock s + length newPosts);
             indieweb1 =
               (if indiewebPostsToDelete \<noteq> []
                then deleteFrom (indieweb_post s) indiewebPostsToDelete else indieweb_post s);
             indieweb2 =
               (if indiewebPostsToCreate \<noteq> []
                then insertInto indieweb1 indiewebPostsToCreate else indieweb1)
         in \<lparr>post = post2, indieweb_post = indieweb2, didResolver = r', clock = k'\<rparr>))"

section \<open>Rows of the mapping file\<close>

text \<open>
  What the contract of \<open>load\<close> says of the file, line by line: the first non-blank line is
  a header when it names \<open>handle\<close>; a line that starts with \<open>#\<close> is a comment; a data row
  has a handle and a domain in its first two fields, both non-empty, both lower-cased.
  \<open>csvRows\<close> are the data rows of a content, in the order of the file.
\<close>

definition rowOfLine :: "nat \<Rightarrow> string \<Rightarrow> (string \<times> string) option" where
  "rowOfLine lineNumber line =
     (if lineNumber = 1 \<and> str_includes (toLowerCase line) ''handle'' then None
      else if trim line = [] \<or> startsWith (trim line) ''#'' then None
      else
        (let parts = map trim (split CHR '','' line) in
         if length parts < 2 then None
         else if toLowerCase (parts ! 0) = [] \<or> toLowerCase (parts ! 1) = [] then None
         else Some (toLowerCase (parts ! 0), toLowerCase (parts ! 1))))"

fun dataRows :: "nat \<Rightarrow> string list \<Rightarrow> (string \<times> string) list" where
  "dataRows lineNumber [] = []"
| "dataRows lineNumber (line # rest) =
     (case rowOfLine (lineNumber + 1) line of
        None \<Rightarrow> dataRows (lineNumber + 1) rest
      | Some row \<Rightarrow> row # dataRows (lineNumber + 1) rest)"

definition csvRows :: "string \<Rightarrow> (string \<times> string) list" where
  "csvRows content = dataRows 0 (filter (\<lambda>line. trim line \<noteq> []) (split CHR 0x0A content))"

text \<open>The domains of the rows of a handle, one for each row, in the order of the rows.\<close>

definition domainsOfRows :: "(string \<times> string) list \<Rightarrow> string \<Rightarrow> string list" where
  "domainsOfRows rows handle = map snd (filter (\<lambda>row. fst row = toLowerCase handle) rows)"

section \<open>Predicates of the statements\<close>

text \<open>No array of the table holds the empty string as a domain.\<close>

definition noEmptyDomain :: "Mappings \<Rightarrow> bool" where
  "noEmptyDomain m = (\<forall>h ds. m h = Some ds \<longrightarrow> [] \<notin> set ds)"

text \<open>
  The rows \<open>handleEvent\<close> stages for the two tables on a commit: \<open>postsToCreate\<close> and
  \<open>indiewebPostsToCreate\<close> as they stand when the insertions run.
\<close>

definition stagedPosts :: "('e, 'r) Env \<Rightarrow> 'r Indexer \<Rightarrow> 'e \<Rightarrow> Post list" where
  "stagedPosts env s evt = postsToCreate env (clock s) (creates (posts (getOpsByType env evt)))"

definition stagedIndiewebPosts ::
  "('e, 'r) Env \<Rightarrow> Mappings \<Rightarrow> 'r Indexer \<Rightarrow> 'e \<Rightarrow> IndiewebPost list" where
  "stagedIndiewebPosts env mappings s evt =
     fst (stageCreates env mappings (creates (posts (getOpsByType env evt)))
            ([], didResolver s, clock s + length (stagedPosts env s evt)))"

text \<open>
  One round of the loop over the created posts, read off \<open>stageCreates\<close>: whether the
  post is staged when the resolver is in state \<open>r\<close>, the row it is staged as at the
  \<open>k\<close>-th reading of the clock, and the resolver's state after the round.
\<close>

definition admits :: "('e, 'r) Env \<Rightarrow> Mappings \<Rightarrow> 'r \<Rightarrow> CreateOp \<Rightarrow> bool" where
  "admits env mappings r create =
     (extractAllLinks (op_record create) \<noteq> [] \<and>
      (case fst (getHandleFromDid (resolve env) r (op_author create)) of
         None \<Rightarrow> False
       | Some handle \<Rightarrow>
           handle \<noteq> [] \<and>
           hasMatch (urlHostname env) handle (getDomainsForHandle mappings handle)
             (extractAllLinks (op_record create))))"

definition resolverAfter :: "('e, 'r) Env \<Rightarrow> 'r \<Rightarrow> CreateOp \<Rightarrow> 'r" where
  "resolverAfter env r create =
     (if extractAllLinks (op_record create) = [] then r
      else snd (getHandleFromDid (resolve env) r (op_author create)))"

definition stagedRow :: "('e, 'r) Env \<Rightarrow> nat \<Rightarrow> CreateOp \<Rightarrow> IndiewebPost" where
  "stagedRow env k create =
     \<lparr>uri = op_uri create, cid = op_cid create, indexedAt = now env k, author = op_author create\<rparr>"

text \<open>The uris an event deletes.\<close>

definition deletedUris :: "('e, 'r) Env \<Rightarrow> 'e \<Rightarrow> string list" where
  "deletedUris env evt = map del_uri (deletes (posts (getOpsByType env evt)))"

text \<open>The outcome of the resolver for a DID does not depend on the resolver's state.\<close>

definition statelessOutcome :: "('e, 'r) Env \<Rightarrow> bool" where
  "statelessOutcome env = (\<forall>r r' did. fst (resolve env r did) = fst (resolve env r' did))"

section \<open>Concrete collaborators for the examples\<close>

text \<open>
  The events of the stream: a commit with the operations \<open>getOpsByType\<close> finds in it, or
  an event of another kind.
\<close>

datatype RepoEvent = Commit OperationsByType | Info string

text \<open>
  A URL parser for the examples: the host of \<open>https://host/path\<close>, and a failure on
  anything that does not start with \<open>https://\<close>. On the URLs of the examples (a plain
  lower-case host name) it gives the \<open>hostname\<close> the platform's parser gives.
\<close>

definition exampleHostname :: "string \<Rightarrow> string option" where
  "exampleHostname url =
     (if startsWith url ''https://''
      then Some (takeWhile (\<lambda>c. c \<noteq> CHR ''/'') (drop 8 url))
      else None)"

text \<open>
  An environment for the examples: the resolver answers from a table of documents and
  counts its calls in its state, and the \<open>k\<close>-th reading of the clock is \<open>T\<close> followed
  by \<open>k\<close> strokes.
\<close>

definition exampleEnv :: "(string \<Rightarrow> ResolveOutcome) \<Rightarrow> (RepoEvent, nat) Env" where
  "exampleEnv docs =
     \<lparr>isCommit = (\<lambda>evt. case evt of Commit ops \<Rightarrow> True | Info msg \<Rightarrow> False),
      getOpsByType =
        (\<lambda>evt. case evt of
                 Commit ops \<Rightarrow> ops
               | Info msg \<Rightarrow> \<lparr>posts = \<lparr>creates = [], deletes = []\<rparr>\<rparr>),
      resolve = (\<lambda>calls did. (docs did, calls + 1)),
      urlHostname = exampleHostname,
      now = (\<lambda>k. CHR ''T'' # replicate k CHR ''|'')\<rparr>"

definition aliceDocs :: "string \<Rightarrow> ResolveOutcome" where
  "aliceDocs did =
     (if did = ''did:plc:alice''
      then Document \<lparr>alsoKnownAs = Some [''at://alice.example'']\<rparr>
      else NoDocument)"

definition linkPost :: "string \<Rightarrow> string \<Rightarrow> PostRecord" where
  "linkPost txt url =
     \<lparr>post_text = txt, facets = Some [\<lparr>features = [Link url]\<rparr>], embed = None\<rparr>"

definition plainPost :: "string \<Rightarrow> PostRecord" where
  "plainPost txt = \<lparr>post_text = txt, facets = None, embed = None\<rparr>"

definition emptyIndexer :: "nat Indexer" where
  "emptyIndexer = \<lparr>post = [], indieweb_post = [], didResolver = 0, clock = 0\<rparr>"

text \<open>
  A post of \<open>did:plc:alice\<close>, whose handle is \<open>alice.example\<close>: its text names alfalfa
  and it links to the author's own site. \<open>aliceBatch\<close> creates the post and deletes its
  uri in one commit; \<open>aliceCommit\<close> only creates it.
\<close>

definition aliceCreate :: CreateOp where
  "aliceCreate =
     \<lparr>op_uri = ''at://did:plc:alice/app.bsky.feed.post/1'', op_cid = ''cid-1'',
      op_author = ''did:plc:alice'',
      op_record = linkPost ''Growing alfalfa'' ''https://alice.example/post''\<rparr>"

definition aliceBatch :: RepoEvent where
  "aliceBatch =
     Commit \<lparr>posts = \<lparr>creates = [aliceCreate],
                       deletes = [\<lparr>del_uri = ''at://did:plc:alice/app.bsky.feed.post/1''\<rparr>]\<rparr>\<rparr>"

definition aliceCommit :: RepoEvent where
  "aliceCommit = Commit \<lparr>posts = \<lparr>creates = [aliceCreate], deletes = []\<rparr>\<rparr>"

text \<open>A post without any link, and a commit that creates it.\<close>

definition plainCreate :: CreateOp where
  "plainCreate =
     \<lparr>op_uri = ''at://did:plc:alice/app.bsky.feed.post/2'', op_cid = ''cid-2'',
      op_author = ''did:plc:alice'', op_record = plainPost ''no link here''\<rparr>"

definition plainCommit :: RepoEvent where
  "plainCommit = Commit \<lparr>posts = \<lparr>creates = [plainCreate], deletes = []\<rparr>\<rparr>"

text \<open>A mapping file that names the same row twice.\<close>

definition repeatedRows :: string where
  "repeatedRows =
     ''handle,domain'' @ [CHR 0x0A] @ ''Alice.Example, blog.example'' @ [CHR 0x0A]
     @ ''alice.example,blog.example''"

section \<open>Strings: lemmas\<close>

lemma toLowerChar_idem: "toLowerChar (toLowerChar c) = toLowerChar c"
  by (auto simp: toLowerChar_def Let_def)

lemma toLowerCase_idem: "toLowerCase (toLowerCase s) = toLowerCase s"
  by (simp add: toLowerCase_def toLowerChar_idem)

lemma toLowerCase_Nil_iff: "toLowerCase s = [] \<longleftrightarrow> s = []"
  by (simp add: toLowerCase_def)

section \<open>The registry: lemmas\<close>

text \<open>One round of the loop either passes the line over or appends one non-empty domain.\<close>

lemma loadLines_Cons_cases:
  "loadLines n m (line # rest) = loadLines (Suc n) m rest
   \<or> (\<exists>h d. h \<noteq> [] \<and> d \<noteq> [] \<and>
         loadLines n m (line # rest) =
           loadLines (Suc n) (m(h \<mapsto> (case m h of None \<Rightarrow> [] | Some ds \<Rightarrow> ds) @ [d])) rest)"
  by (auto simp: Let_def)

lemma noEmptyDomain_update:
  "noEmptyDomain m \<Longrightarrow> d \<noteq> [] \<Longrightarrow>
   noEmptyDomain (m(h \<mapsto> (case m h of None \<Rightarrow> [] | Some ds \<Rightarrow> ds) @ [d]))"
  by (auto simp: noEmptyDomain_def split: option.splits)

lemma loadLines_noEmptyDomain:
  "noEmptyDomain m \<Longrightarrow> noEmptyDomain (loadLines n m ls)"
proof (induction ls arbitrary: n m)
  case Nil
  then show ?case by simp
next
  case (Cons line rest)
  from loadLines_Cons_cases [of n m line rest] show ?case
  proof
    assume skip: "loadLines n m (line # rest) = loadLines (Suc n) m rest"
    show ?thesis unfolding skip by (rule Cons.IH [OF Cons.prems])
  next
    assume "\<exists>h d. h \<noteq> [] \<and> d \<noteq> [] \<and>
         loadLines n m (line # rest) =
           loadLines (Suc n) (m(h \<mapsto> (case m h of None \<Rightarrow> [] | Some ds \<Rightarrow> ds) @ [d])) rest"
    then obtain h d where d: "d \<noteq> []"
      and eq: "loadLines n m (line # rest) =
           loadLines (Suc n) (m(h \<mapsto> (case m h of None \<Rightarrow> [] | Some ds \<Rightarrow> ds) @ [d])) rest"
      by blast
    show ?thesis
      unfolding eq by (rule Cons.IH [OF noEmptyDomain_update [OF Cons.prems d]])
  qed
qed

lemma load_noEmptyDomain: "noEmptyDomain m \<Longrightarrow> noEmptyDomain (load file m)"
proof (cases "file")
  case (Content c)
  have "noEmptyDomain Map.empty" by (simp add: noEmptyDomain_def)
  then show ?thesis
    using Content by (simp add: load_def parseContent_def loadLines_noEmptyDomain)
qed (simp_all add: load_def noEmptyDomain_def)

lemma foldl_load_noEmptyDomain:
  "noEmptyDomain m \<Longrightarrow> noEmptyDomain (foldl (\<lambda>mappings file. load file mappings) m files)"
  by (induction files arbitrary: m) (simp_all add: load_noEmptyDomain)

lemma registryAfter_no_empty_domain:
  "[] \<notin> set (getDomainsForHandle (registryAfter files) handle)"
proof -
  have "noEmptyDomain (registryAfter files)"
    unfolding registryAfter_def
    by (rule foldl_load_noEmptyDomain) (simp add: noEmptyDomain_def)
  then show ?thesis
    by (auto simp: noEmptyDomain_def getDomainsForHandle_def split: option.splits)
qed

text \<open>One round of the loop, by the row the line stands for.\<close>

lemma loadLines_Cons_row:
  "loadLines n m (line # rest) =
     (case rowOfLine (Suc n) line of
        None \<Rightarrow> loadLines (Suc n) m rest
      | Some (h, d) \<Rightarrow>
          loadLines (Suc n) (m(h \<mapsto> (case m h of None \<Rightarrow> [] | Some ds \<Rightarrow> ds) @ [d])) rest)"
  by (simp add: rowOfLine_def Let_def)

lemma getDomainsForHandle_update:
  "getDomainsForHandle (m(h \<mapsto> (case m h of None \<Rightarrow> [] | Some ds \<Rightarrow> ds) @ [d])) handle =
     getDomainsForHandle m handle @ (if h = toLowerCase handle then [d] else [])"
  by (simp add: getDomainsForHandle_def split: option.splits)

lemma getDomainsForHandle_loadLines:
  "getDomainsForHandle (loadLines n m ls) handle =
     getDomainsForHandle m handle @ domainsOfRows (dataRows n ls) handle"
proof (induction ls arbitrary: n m)
  case Nil
  show ?case by (simp add: domainsOfRows_def)
next
  case (Cons line rest)
  show ?case
  proof (cases "rowOfLine (Suc n) line")
    case None
    then show ?thesis
      unfolding loadLines_Cons_row using Cons.IH [of "Suc n" m] by simp
  next
    case (Some row)
    obtain h d where row: "row = (h, d)" by (cases row)
    show ?thesis
      unfolding loadLines_Cons_row
      using Some row
        Cons.IH [of "Suc n" "m(h \<mapsto> (case m h of None \<Rightarrow> [] | Some ds \<Rightarrow> ds) @ [d])"]
      by (simp add: getDomainsForHandle_update domainsOfRows_def del: fun_upd_apply)
  qed
qed

section \<open>The classifier: lemmas\<close>

lemma hasMatch_iff:
  "hasMatch hostnameOf handle csv links \<longleftrightarrow>
     (\<exists>link \<in> set links. \<exists>domain.
        getDomainFromUrl hostnameOf link = Some domain \<and> domain \<noteq> [] \<and>
        ((\<not> endsWith handle ''.bsky.social'' \<and> toLowerCase domain = toLowerCase handle)
         \<or> toLowerCase domain \<in> set csv))"
  by (induction links) (auto simp: list_ex_iff split: option.splits)

lemma getDomainFromUrl_lower:
  "getDomainFromUrl hostnameOf link = Some domain \<Longrightarrow> toLowerCase domain = domain"
  by (auto simp: getDomainFromUrl_def toLowerCase_idem split: option.splits)

section \<open>The tables: lemmas\<close>

lemma deleteFrom_Nil: "deleteFrom table [] = table"
  by (simp add: deleteFrom_def)

lemma uris_deleteFrom: "uri ` set (deleteFrom table uris) = uri ` set table - set uris"
  by (auto simp: deleteFrom_def)

lemma set_deleteFrom: "set (deleteFrom table uris) = {row \<in> set table. uri row \<notin> set uris}"
  by (auto simp: deleteFrom_def)

lemma distinct_deleteFrom:
  "distinct (map uri table) \<Longrightarrow> distinct (map uri (deleteFrom table uris))"
  by (simp add: deleteFrom_def distinct_map_filter)

lemma uris_insertInto:
  "uri ` set (insertInto table rows) = uri ` set table \<union> uri ` set rows"
  by (induction rows arbitrary: table) auto

lemma set_insertInto: "set (insertInto table rows) \<subseteq> set table \<union> set rows"
proof (induction rows arbitrary: table)
  case Nil
  show ?case by simp
next
  case (Cons v vs)
  show ?case
    using Cons.IH [of table] Cons.IH [of "table @ [v]"] by auto
qed

lemma set_insertInto_old: "set table \<subseteq> set (insertInto table rows)"
proof (induction rows arbitrary: table)
  case Nil
  show ?case by simp
next
  case (Cons v vs)
  show ?case
    using Cons.IH [of table] Cons.IH [of "table @ [v]"] by auto
qed

lemma distinct_insertInto:
  "distinct (map uri table) \<Longrightarrow> distinct (map uri (insertInto table rows))"
  by (induction rows arbitrary: table) auto

lemma insertInto_present:
  "set (map uri rows) \<subseteq> set (map uri table) \<Longrightarrow> insertInto table rows = table"
  by (induction rows arbitrary: table) auto

lemma handleEvent_post:
  "isCommit env evt \<Longrightarrow>
   post (handleEvent env m s evt) =
     insertInto (deleteFrom (post s) (deletedUris env evt)) (stagedPosts env s evt)"
  by (simp add: handleEvent_def Let_def deletedUris_def stagedPosts_def deleteFrom_Nil
        split: prod.splits)

lemma handleEvent_indieweb_post:
  "isCommit env evt \<Longrightarrow>
   indieweb_post (handleEvent env m s evt) =
     insertInto (deleteFrom (indieweb_post s) (deletedUris env evt))
       (stagedIndiewebPosts env m s evt)"
  by (simp add: handleEvent_def Let_def deletedUris_def stagedIndiewebPosts_def stagedPosts_def
        deleteFrom_Nil split: prod.splits)

lemma handleEvent_distinct_post:
  "distinct (map uri (post s)) \<Longrightarrow> distinct (map uri (post (handleEvent env m s evt)))"
  by (cases "isCommit env evt")
     (simp_all add: handleEvent_post distinct_insertInto distinct_deleteFrom, simp add: handleEvent_def)

lemma handleEvent_distinct_indieweb_post:
  "distinct (map uri (indieweb_post s)) \<Longrightarrow>
   distinct (map uri (indieweb_post (handleEvent env m s evt)))"
  by (cases "isCommit env evt")
     (simp_all add: handleEvent_indieweb_post distinct_insertInto distinct_deleteFrom,
      simp add: handleEvent_def)

lemma deleted_then_inserted_fresh:
  "u \<in> set uris \<Longrightarrow> row \<in> set (insertInto (deleteFrom table uris) rows) \<Longrightarrow> uri row = u
   \<Longrightarrow> row \<in> set rows"
  using set_insertInto [of "deleteFrom table uris" rows] by (auto simp: set_deleteFrom)

lemma deleted_then_inserted_present:
  "u \<in> set uris \<Longrightarrow>
   u \<in> set (map uri (insertInto (deleteFrom table uris) rows)) \<longleftrightarrow> u \<in> set (map uri rows)"
  by (auto simp: uris_insertInto uris_deleteFrom)

section \<open>The loop over the created posts: lemmas\<close>

lemma stageCreates_step:
  "stageCreates env m (create # rest) (acc, r, k) =
     (if admits env m r create
      then stageCreates env m rest (acc @ [stagedRow env k create], resolverAfter env r create, k + 1)
      else stageCreates env m rest (acc, resolverAfter env r create, k))"
  by (simp add: admits_def resolverAfter_def stagedRow_def Let_def split: prod.splits option.splits)

lemma stageCreates_acc:
  "stageCreates env m cs (acc, r, k) =
     (acc @ fst (stageCreates env m cs ([], r, k)), snd (stageCreates env m cs ([], r, k)))"
proof (induction cs arbitrary: acc r k)
  case Nil
  show ?case by simp
next
  case (Cons create rest)
  show ?case
    unfolding stageCreates_step
    using Cons.IH [of "acc @ [stagedRow env k create]" "resolverAfter env r create" "k + 1"]
      Cons.IH [of "[stagedRow env k create]" "resolverAfter env r create" "k + 1"]
      Cons.IH [of acc "resolverAfter env r create" k]
    by (simp del: stageCreates.simps)
qed

lemma stageCreates_rows:
  "row \<in> set (fst (stageCreates env m cs ([], r, k))) \<Longrightarrow>
   \<exists>create \<in> set cs. \<exists>j \<ge> k. row = stagedRow env j create"
proof (induction cs arbitrary: r k)
  case Nil
  then show ?case by simp
next
  case (Cons create rest)
  let ?r = "resolverAfter env r create"
  show ?case
  proof (cases "admits env m r create")
    case True
    have "fst (stageCreates env m (create # rest) ([], r, k)) =
            stagedRow env k create # fst (stageCreates env m rest ([], ?r, k + 1))"
      unfolding stageCreates_step
      using True stageCreates_acc [of env m rest "[stagedRow env k create]" ?r "k + 1"]
      by (simp del: stageCreates.simps)
    then have "row = stagedRow env k create
                 \<or> row \<in> set (fst (stageCreates env m rest ([], ?r, k + 1)))"
      using Cons.prems by (simp del: stageCreates.simps)
    then show ?thesis
    proof
      assume "row = stagedRow env k create"
      then show ?thesis by auto
    next
      assume "row \<in> set (fst (stageCreates env m rest ([], ?r, k + 1)))"
      from Cons.IH [OF this] show ?thesis
        by (auto intro: Suc_leD)
    qed
  next
    case False
    then have "row \<in> set (fst (stageCreates env m rest ([], ?r, k)))"
      using Cons.prems unfolding stageCreates_step by (simp del: stageCreates.simps)
    from Cons.IH [OF this] show ?thesis
      by auto
  qed
qed

lemma stageCreates_linkless:
  "extractAllLinks (op_record create) = [] \<Longrightarrow>
   stageCreates env m (create # rest) st = stageCreates env m rest st"
  by (cases st) (simp add: stageCreates_step admits_def resolverAfter_def del: stageCreates.simps)

lemma stageCreates_all_linkless:
  "\<forall>create \<in> set cs. extractAllLinks (op_record create) = [] \<Longrightarrow> stageCreates env m cs st = st"
  by (induction cs) (simp_all add: stageCreates_linkless del: stageCreates.simps(2))


lemma fst_getHandleFromDid:
  "fst (getHandleFromDid res r did) =
     (case getHandleFromDid_try (fst (res r did)) of Inl err \<Rightarrow> None | Inr handle \<Rightarrow> handle)"
  by (simp add: getHandleFromDid_def split: prod.splits sum.splits)

lemma admits_stateless:
  assumes "statelessOutcome env"
  shows "admits env m r create = admits env m r' create"
proof -
  have "fst (resolve env r (op_author create)) = fst (resolve env r' (op_author create))"
    using assms unfolding statelessOutcome_def by blast
  then show ?thesis
    by (simp only: admits_def fst_getHandleFromDid)
qed

lemma stageCreates_uris_stateless:
  assumes "statelessOutcome env"
  shows "map uri (fst (stageCreates env m cs ([], r, k))) =
         map uri (fst (stageCreates env m cs ([], r', k')))"
proof (induction cs arbitrary: r k r' k')
  case Nil
  show ?case by simp
next
  case (Cons create rest)
  have head: "fst (stageCreates env m (create # rest) ([], q, j)) =
                (if admits env m q create then [stagedRow env j create] else [])
                @ fst (stageCreates env m rest ([], resolverAfter env q create, Suc j))"
    if "admits env m q create" for q j
    unfolding stageCreates_step
    using that stageCreates_acc [of env m rest "[stagedRow env j create]"]
    by (simp del: stageCreates.simps)
  show ?case
  proof (cases "admits env m r create")
    case True
    then have other: "admits env m r' create"
      using admits_stateless [OF assms] by blast
    show ?thesis
      unfolding head [OF True] head [OF other]
      using True other
        Cons.IH [of "resolverAfter env r create" "Suc k" "resolverAfter env r' create" "Suc k'"]
      by (simp add: stagedRow_def del: stageCreates.simps)
  next
    case False
    then have other: "\<not> admits env m r' create"
      using admits_stateless [OF assms] by blast
    show ?thesis
      unfolding stageCreates_step
      using False other
        Cons.IH [of "resolverAfter env r create" k "resolverAfter env r' create" k']
      by (simp del: stageCreates.simps)
  qed
qed

lemma insertInto_again:
  assumes "map uri again = map uri rows"
  shows "insertInto (insertInto table rows) again = insertInto table rows"
proof (rule insertInto_present)
  have "set (map uri again) = set (map uri rows)"
    using assms by simp
  then show "set (map uri again) \<subseteq> set (map uri (insertInto table rows))"
    by (auto simp: uris_insertInto)
qed

section \<open>The resolver adapter: lemmas\<close>

text \<open>
  \<open>replace\<close> strips a leading pattern and leaves a string without the pattern as it is;
  \<open>getHandleFromDid\<close> is \<open>null\<close> on every failure and the first alias through
  \<open>replace\<close> otherwise.
\<close>

lemma replace_prefix: "pat \<noteq> [] \<Longrightarrow> replace (pat @ s) pat rep = rep @ s"
  by (cases pat) (simp_all add: startsWith_def)

lemma replace_absent: "\<not> str_includes s pat \<Longrightarrow> replace s pat rep = s"
  by (induction s) auto

lemma getHandleFromDid_unresolved:
  assumes "fst (res r did) = Throws \<or> fst (res r did) = NoDocument
           \<or> (\<exists>doc. fst (res r did) = Document doc
                 \<and> (alsoKnownAs doc = None \<or> alsoKnownAs doc = Some []
                      \<or> (\<exists>others. alsoKnownAs doc = Some ([] # others))))"
  shows "fst (getHandleFromDid res r did) = None"
  using assms by (auto simp: fst_getHandleFromDid)

lemma getHandleFromDid_first_alias:
  assumes "fst (res r did) = Document doc" and "alsoKnownAs doc = Some (first # others)"
      and "first \<noteq> []"
  shows "fst (getHandleFromDid res r did) = Some (replace first ''at://'' [])"
  using assms by (simp add: fst_getHandleFromDid)

section \<open>The keyword branch and \<open>handleEvent\<close>: lemmas\<close>

lemma enumerate_member:
  "(i, x) \<in> set (enumerate k xs) \<Longrightarrow> x \<in> set xs \<and> k \<le> i"
  by (auto simp: in_set_enumerate_eq)

lemma map_snd_over_enumerate: "map (\<lambda>p. f (snd p)) (enumerate k xs) = map f xs"
  by (induction xs arbitrary: k) simp_all

lemma uris_postsToCreate: "map uri (postsToCreate env k cs) = map op_uri (alfCreates cs)"
  by (simp add: postsToCreate_def comp_def split_def map_snd_over_enumerate)

lemma length_postsToCreate: "length (postsToCreate env k cs) = length (alfCreates cs)"
  by (simp add: postsToCreate_def)

lemma set_postsToCreate_rows:
  "row \<in> set (postsToCreate env k cs) \<Longrightarrow>
   \<exists>create \<in> set (alfCreates cs). \<exists>j \<ge> k.
     row = \<lparr>uri = op_uri create, cid = op_cid create, indexedAt = now env j\<rparr>"
  unfolding postsToCreate_def using enumerate_member [of _ _ k "alfCreates cs"] by fastforce

lemma alfCreates_staged:
  "create \<in> set (creates (posts (getOpsByType env evt))) \<Longrightarrow>
   str_includes (toLowerCase (post_text (op_record create))) ''alf'' \<and> op_uri create = u \<Longrightarrow>
   u \<in> set (map uri (stagedPosts env s evt))"
  unfolding stagedPosts_def uris_postsToCreate by (auto simp: alfCreates_def)

section \<open>The classifier on the examples of the specification\<close>

lemma classifier_rule_A_example:
  "hasMatch exampleHostname ''dominik.social''
     (getDomainsForHandle Map.empty ''dominik.social'') [''https://dominik.social/post'']"
  by code_simp

lemma classifier_rule_A_exclusion_example:
  "\<not> hasMatch exampleHostname ''alice.bsky.social''
       (getDomainsForHandle Map.empty ''alice.bsky.social'') [''https://alice.bsky.social/x'']"
  by code_simp

lemma classifier_rule_B_example:
  "hasMatch exampleHostname ''alice.bsky.social''
     (getDomainsForHandle (parseContent ''alice.bsky.social,blog.example.com'') ''alice.bsky.social'')
     [''https://blog.example.com/p/1'']"
  by code_simp

section \<open>The claims\<close>

subsection \<open>C1: a failed load and the table\<close>

text \<open>
  C1, as stated, fails: when the mapping file is missing, \<open>load\<close> clears the table. Here
  a first load fills the table from a file, the file is then removed, and the next load
  leaves no domain for the handle.
\<close>

theorem load_missing_clears_counterexample:
  "getDomainsForHandle (load (Content ''alice.example,blog.example'') Map.empty) ''alice.example''
     = [''blog.example'']
   \<and> getDomainsForHandle
        (load Missing (load (Content ''alice.example,blog.example'') Map.empty)) ''alice.example''
     = []"
  by code_simp

text \<open>
  C1, amended: when the \<open>try\<close> block of \<open>load\<close> raises (the read of the file fails), the
  table is left exactly as it was, never cleared and never partly overwritten; when the
  mapping file is missing, which the code tests before it reads, the table is cleared.
\<close>

theorem load_failure_table:
  "(load_try file mappings = Inl err \<longrightarrow> load file mappings = mappings)
   \<and> load Unreadable mappings = mappings
   \<and> load Missing mappings = Map.empty"
  by (simp add: load_def)

theorem load_failure_table_witness:
  "load_try Unreadable (parseContent ''alice.example,blog.example'') = Inl ReadFailed
   \<and> getDomainsForHandle (load Unreadable (parseContent ''alice.example,blog.example''))
         ''alice.example''
       = [''blog.example'']
   \<and> getDomainsForHandle (load Missing (parseContent ''alice.example,blog.example''))
         ''alice.example''
       = []"
proof -
  have thrown: "load_try Unreadable (parseContent ''alice.example,blog.example'') = Inl ReadFailed"
    by simp
  have before:
    "getDomainsForHandle (parseContent ''alice.example,blog.example'') ''alice.example''
       = [''blog.example'']"
    by code_simp
  from load_failure_table [of Unreadable "parseContent ''alice.example,blog.example''" ReadFailed]
  have kept: "load Unreadable (parseContent ''alice.example,blog.example'')
                = parseContent ''alice.example,blog.example''"
    and cleared: "load Missing (parseContent ''alice.example,blog.example'') = Map.empty"
    using thrown by simp_all
  show ?thesis
    using thrown before by (simp add: kept cleared getDomainsForHandle_def)
qed

subsection \<open>C2: the author of a staged row\<close>

text \<open>
  C2, as stated, fails: the row staged for an admitted post holds the author's DID, not
  the handle the DID resolves to. Here \<open>did:plc:alice\<close> resolves to \<open>alice.example\<close>, the
  post links to that site and is admitted, and the row's author is the DID.
\<close>

theorem staged_author_counterexample:
  "map author (indieweb_post (handleEvent (exampleEnv aliceDocs) Map.empty emptyIndexer aliceCommit))
     = [''did:plc:alice'']
   \<and> fst (getHandleFromDid (resolve (exampleEnv aliceDocs)) 0 ''did:plc:alice'')
     = Some ''alice.example''"
  by code_simp

text \<open>
  C2, amended: for every created post the classifier admits, at any round of the loop, the
  row staged for the \<open>indieweb_post\<close> table is (uri, cid, indexedAt = now, author) with
  the author identifier of the creation (its DID) in the author field; and every staged
  row is such a row of one of the event's created posts.
\<close>

theorem staged_row_author:
  "(admits env m r create \<longrightarrow>
      \<lparr>uri = op_uri create, cid = op_cid create, indexedAt = now env k,
         author = op_author create\<rparr>
        \<in> set (fst (stageCreates env m (create # rest) (acc, r, k))))
   \<and> (\<forall>row \<in> set (fst (stageCreates env m cs ([], r, k))).
         \<exists>create \<in> set cs.
           uri row = op_uri create \<and> cid row = op_cid create \<and> author row = op_author create
           \<and> (\<exists>j \<ge> k. indexedAt row = now env j))"
proof (intro conjI impI ballI)
  assume adm: "admits env m r create"
  have "stageCreates env m (create # rest) (acc, r, k) =
          stageCreates env m rest (acc @ [stagedRow env k create], resolverAfter env r create, k + 1)"
    unfolding stageCreates_step using adm by simp
  also have "fst \<dots> = (acc @ [stagedRow env k create])
                 @ fst (stageCreates env m rest ([], resolverAfter env r create, k + 1))"
    using stageCreates_acc [of env m rest "acc @ [stagedRow env k create]"] by simp
  finally show "\<lparr>uri = op_uri create, cid = op_cid create, indexedAt = now env k,
         author = op_author create\<rparr>
        \<in> set (fst (stageCreates env m (create # rest) (acc, r, k)))"
    by (simp add: stagedRow_def del: stageCreates.simps)
next
  fix row
  assume "row \<in> set (fst (stageCreates env m cs ([], r, k)))"
  from stageCreates_rows [OF this]
  obtain create j where "create \<in> set cs" "k \<le> j" "row = stagedRow env j create"
    by blast
  then show "\<exists>create \<in> set cs.
           uri row = op_uri create \<and> cid row = op_cid create \<and> author row = op_author create
           \<and> (\<exists>j \<ge> k. indexedAt row = now env j)"
    by (auto simp: stagedRow_def)
qed

theorem staged_row_author_witness:
  "admits (exampleEnv aliceDocs) Map.empty 0 aliceCreate
   \<and> \<lparr>uri = ''at://did:plc:alice/app.bsky.feed.post/1'', cid = ''cid-1'',
        indexedAt = now (exampleEnv aliceDocs) 0, author = ''did:plc:alice''\<rparr>
       \<in> set (fst (stageCreates (exampleEnv aliceDocs) Map.empty [aliceCreate] ([], 0, 0)))
   \<and> (\<exists>create \<in> set [aliceCreate]. ''did:plc:alice'' = op_author create)"
proof -
  have adm: "admits (exampleEnv aliceDocs) Map.empty 0 aliceCreate"
    by code_simp
  have fields: "op_uri aliceCreate = ''at://did:plc:alice/app.bsky.feed.post/1''"
    "op_cid aliceCreate = ''cid-1''" "op_author aliceCreate = ''did:plc:alice''"
    by (simp_all add: aliceCreate_def)
  from staged_row_author
         [where env = "exampleEnv aliceDocs" and m = Map.empty and r = 0 and k = 0
            and create = aliceCreate and rest = "[]" and acc = "[]" and cs = "[aliceCreate]"]
  show ?thesis
    using adm fields by auto
qed

subsection \<open>C3: deletions and insertions of one batch\<close>

text \<open>
  C3, as stated, fails: the deletion runs first, so a batch that creates a post and
  deletes its uri leaves the new row in the table. Here one commit creates a post (which
  both branches keep) and deletes its uri, and both tables hold a row for the uri after.
\<close>

theorem create_and_delete_counterexample:
  "deletedUris (exampleEnv aliceDocs) aliceBatch = [''at://did:plc:alice/app.bsky.feed.post/1'']
   \<and> map op_uri (creates (posts (getOpsByType (exampleEnv aliceDocs) aliceBatch)))
       = [''at://did:plc:alice/app.bsky.feed.post/1'']
   \<and> map uri (post (handleEvent (exampleEnv aliceDocs) Map.empty emptyIndexer aliceBatch))
       = [''at://did:plc:alice/app.bsky.feed.post/1'']
   \<and> map uri (indieweb_post (handleEvent (exampleEnv aliceDocs) Map.empty emptyIndexer aliceBatch))
       = [''at://did:plc:alice/app.bsky.feed.post/1'']"
  by code_simp

text \<open>
  C3, amended: within one batch the deletions are applied before the insertions, in both
  tables. So for a uri the batch deletes: the table holds a row for it after the batch
  exactly when the batch stages a row for it (a created post that the keyword filter
  keeps is staged for the \<open>post\<close> table); and every row the table then holds for the
  uri is a row staged by this batch, the earlier row being gone.
\<close>

theorem deletes_before_inserts:
  assumes commit: "isCommit env evt"
      and deleted: "u \<in> set (deletedUris env evt)"
  shows "(\<forall>create \<in> set (creates (posts (getOpsByType env evt))).
            str_includes (toLowerCase (post_text (op_record create))) ''alf'' \<and> op_uri create = u
            \<longrightarrow> u \<in> set (map uri (post (handleEvent env m s evt))))
       \<and> (u \<in> set (map uri (stagedPosts env s evt))
            \<longrightarrow> u \<in> set (map uri (post (handleEvent env m s evt))))
       \<and> (u \<notin> set (map uri (stagedPosts env s evt))
            \<longrightarrow> u \<notin> set (map uri (post (handleEvent env m s evt))))
       \<and> (\<forall>row \<in> set (post (handleEvent env m s evt)).
            uri row = u \<longrightarrow> row \<in> set (stagedPosts env s evt))
       \<and> (u \<in> set (map uri (stagedIndiewebPosts env m s evt))
            \<longrightarrow> u \<in> set (map uri (indieweb_post (handleEvent env m s evt))))
       \<and> (u \<notin> set (map uri (stagedIndiewebPosts env m s evt))
            \<longrightarrow> u \<notin> set (map uri (indieweb_post (handleEvent env m s evt))))
       \<and> (\<forall>row \<in> set (indieweb_post (handleEvent env m s evt)).
            uri row = u \<longrightarrow> row \<in> set (stagedIndiewebPosts env m s evt))"
  unfolding handleEvent_post [OF commit] handleEvent_indieweb_post [OF commit]
    deleted_then_inserted_present [OF deleted]
  using alfCreates_staged [of _ env evt u s] deleted_then_inserted_fresh [OF deleted, of _ "post s" "stagedPosts env s evt"]
    deleted_then_inserted_fresh
      [OF deleted, of _ "indieweb_post s" "stagedIndiewebPosts env m s evt"]
  by blast

theorem deletes_before_inserts_witness:
  "isCommit (exampleEnv aliceDocs) aliceBatch
   \<and> ''at://did:plc:alice/app.bsky.feed.post/1'' \<in> set (deletedUris (exampleEnv aliceDocs) aliceBatch)
   \<and> ''at://did:plc:alice/app.bsky.feed.post/1''
       \<in> set (map uri (post (handleEvent (exampleEnv aliceDocs) Map.empty emptyIndexer aliceBatch)))
   \<and> ''at://did:plc:alice/app.bsky.feed.post/1''
       \<in> set (map uri (indieweb_post
                          (handleEvent (exampleEnv aliceDocs) Map.empty emptyIndexer aliceBatch)))"
proof -
  have commit: "isCommit (exampleEnv aliceDocs) aliceBatch"
    by code_simp
  have deleted:
    "''at://did:plc:alice/app.bsky.feed.post/1'' \<in> set (deletedUris (exampleEnv aliceDocs) aliceBatch)"
    by code_simp
  have staged:
    "''at://did:plc:alice/app.bsky.feed.post/1''
       \<in> set (map uri (stagedPosts (exampleEnv aliceDocs) emptyIndexer aliceBatch))"
    "''at://did:plc:alice/app.bsky.feed.post/1''
       \<in> set (map uri (stagedIndiewebPosts (exampleEnv aliceDocs) Map.empty emptyIndexer aliceBatch))"
    by code_simp+
  from deletes_before_inserts [OF commit deleted, where s = emptyIndexer and m = Map.empty]
  show ?thesis
    using commit deleted staged by blast
qed

subsection \<open>C4: the classifier's rule\<close>

text \<open>
  C4: for a resolved handle (not \<open>null\<close>, not empty) and the registry after any history
  of loads, the loop over the links admits the post if and only if some link has a derived
  domain (the lower-case hostname; a link that does not parse has none) that either equals
  the handle up to letter case while the handle does not end with \<open>.bsky.social\<close>, or is
  among the registry's domains for the handle. The loop returns at the first such link.
\<close>

theorem classifier_admits_iff:
  assumes "handle \<noteq> []"
  shows "hasMatch hostnameOf handle (getDomainsForHandle (registryAfter files) handle) links \<longleftrightarrow>
     (\<exists>link \<in> set links. \<exists>domain.
        getDomainFromUrl hostnameOf link = Some domain \<and>
        ((toLowerCase domain = toLowerCase handle \<and> \<not> endsWith handle ''.bsky.social'')
         \<or> domain \<in> set (getDomainsForHandle (registryAfter files) handle)))"
  (is "?L \<longleftrightarrow> ?R")
proof
  assume ?L
  then show ?R
    unfolding hasMatch_iff by (metis getDomainFromUrl_lower)
next
  assume ?R
  then obtain link domain where link: "link \<in> set links"
    and dom: "getDomainFromUrl hostnameOf link = Some domain"
    and rule: "(toLowerCase domain = toLowerCase handle \<and> \<not> endsWith handle ''.bsky.social'')
         \<or> domain \<in> set (getDomainsForHandle (registryAfter files) handle)"
    by blast
  have "domain \<noteq> []"
    using rule assms registryAfter_no_empty_domain [of files handle]
    by (auto simp: toLowerCase_def)
  moreover have "toLowerCase domain = domain"
    by (rule getDomainFromUrl_lower [OF dom])
  ultimately have "domain \<noteq> [] \<and>
        ((\<not> endsWith handle ''.bsky.social'' \<and> toLowerCase domain = toLowerCase handle)
         \<or> toLowerCase domain \<in> set (getDomainsForHandle (registryAfter files) handle))"
    using rule by auto
  then show ?L
    unfolding hasMatch_iff using link dom by blast
qed

theorem classifier_admits_iff_witness:
  "''alice.bsky.social'' \<noteq> []
   \<and> hasMatch exampleHostname ''alice.bsky.social''
        (getDomainsForHandle (registryAfter [Content ''alice.bsky.social,blog.example''])
           ''alice.bsky.social'')
        [''no url'', ''https://blog.example/p/1'']
   \<and> (\<exists>link \<in> set [''no url'', ''https://blog.example/p/1'']. \<exists>domain.
        getDomainFromUrl exampleHostname link = Some domain \<and>
        ((toLowerCase domain = toLowerCase ''alice.bsky.social''
          \<and> \<not> endsWith ''alice.bsky.social'' ''.bsky.social'')
         \<or> domain \<in> set (getDomainsForHandle
                            (registryAfter [Content ''alice.bsky.social,blog.example''])
                            ''alice.bsky.social'')))"
proof -
  have resolved: "''alice.bsky.social'' \<noteq> []"
    by simp
  have admitted:
    "hasMatch exampleHostname ''alice.bsky.social''
        (getDomainsForHandle (registryAfter [Content ''alice.bsky.social,blog.example''])
           ''alice.bsky.social'')
        [''no url'', ''https://blog.example/p/1'']"
    by code_simp
  from classifier_admits_iff
         [OF resolved, of exampleHostname "[Content ''alice.bsky.social,blog.example'']"
            "[''no url'', ''https://blog.example/p/1'']"]
  show ?thesis
    using resolved admitted by blast
qed

subsection \<open>C5: a post without links\<close>

text \<open>
  C5: a created post with no extracted link is passed over before the resolver is called.
  At any round of the loop, the round of such a post leaves the staged rows, the
  resolver's state and the clock as they were, whatever the resolver; and on an event
  whose created posts all have no link, \<open>handleEvent\<close> gives the same result with any
  other resolver and leaves the resolver's state untouched.
\<close>

theorem linkless_post_skips_resolver:
  "(extractAllLinks (op_record create) = [] \<longrightarrow>
      stageCreates env m (create # rest) (acc, r, k) = stageCreates env m rest (acc, r, k)
      \<and> stageCreates (env\<lparr>resolve := other\<rparr>) m [create] (acc, r, k) = (acc, r, k))
   \<and> ((\<forall>create \<in> set (creates (posts (getOpsByType env evt))).
          extractAllLinks (op_record create) = []) \<longrightarrow>
        handleEvent (env\<lparr>resolve := other\<rparr>) m s evt = handleEvent env m s evt
        \<and> didResolver (handleEvent env m s evt) = didResolver s)"
proof (intro conjI impI)
  assume "extractAllLinks (op_record create) = []"
  then show "stageCreates env m (create # rest) (acc, r, k) = stageCreates env m rest (acc, r, k)"
    and "stageCreates (env\<lparr>resolve := other\<rparr>) m [create] (acc, r, k) = (acc, r, k)"
    by (simp_all add: stageCreates_linkless del: stageCreates.simps(2))
next
  assume linkless: "\<forall>create \<in> set (creates (posts (getOpsByType env evt))).
          extractAllLinks (op_record create) = []"
  have same: "stageCreates env m (creates (posts (getOpsByType env evt))) st = st"
    and other: "stageCreates (env\<lparr>resolve := other\<rparr>) m (creates (posts (getOpsByType env evt))) st = st"
    for st
    by (rule stageCreates_all_linkless [OF linkless])+
  show "handleEvent (env\<lparr>resolve := other\<rparr>) m s evt = handleEvent env m s evt"
    by (simp add: handleEvent_def Let_def same other postsToCreate_def)
  show "didResolver (handleEvent env m s evt) = didResolver s"
    by (simp add: handleEvent_def Let_def same)
qed

theorem linkless_post_skips_resolver_witness:
  "extractAllLinks (op_record plainCreate) = []
   \<and> stageCreates (exampleEnv aliceDocs) Map.empty [plainCreate] ([], 0, 0) = ([], 0, 0)
   \<and> handleEvent ((exampleEnv aliceDocs)\<lparr>resolve := (\<lambda>calls did. (Throws, calls + 7))\<rparr>)
         Map.empty emptyIndexer plainCommit
       = handleEvent (exampleEnv aliceDocs) Map.empty emptyIndexer plainCommit
   \<and> didResolver (handleEvent (exampleEnv aliceDocs) Map.empty emptyIndexer plainCommit) = 0"
proof -
  have nolink: "extractAllLinks (op_record plainCreate) = []"
    by code_simp
  have all: "\<forall>create \<in> set (creates (posts (getOpsByType (exampleEnv aliceDocs) plainCommit))).
               extractAllLinks (op_record create) = []"
    using nolink by (simp add: exampleEnv_def plainCommit_def)
  from linkless_post_skips_resolver
         [where create = plainCreate and env = "exampleEnv aliceDocs" and m = Map.empty
            and rest = "[]" and acc = "[]" and r = 0 and k = 0
            and other = "\<lambda>calls did. (Throws, calls + 7)" and evt = plainCommit
            and s = emptyIndexer]
  show ?thesis
    using nolink all by (simp add: emptyIndexer_def)
qed

subsection \<open>C6: the same event twice\<close>

text \<open>
  C6: from tables without two rows of one uri, handling an event and then the same event
  again leaves no two rows of one uri in either table. The second insertion of a uri the
  table holds is passed over: with no deletion in the event, the \<open>post\<close> table after the
  second handling is the table after the first, and so is the \<open>indieweb_post\<close> table
  when the resolver answers the same for a DID both times.
\<close>

theorem handleEvent_twice:
  assumes "distinct (map uri (post s))" and "distinct (map uri (indieweb_post s))"
  shows "distinct (map uri (post (handleEvent env m (handleEvent env m s evt) evt)))
       \<and> distinct (map uri (indieweb_post (handleEvent env m (handleEvent env m s evt) evt)))
       \<and> (deletedUris env evt = [] \<longrightarrow>
            post (handleEvent env m (handleEvent env m s evt) evt)
              = post (handleEvent env m s evt))
       \<and> (deletedUris env evt = [] \<and> statelessOutcome env \<longrightarrow>
            indieweb_post (handleEvent env m (handleEvent env m s evt) evt)
              = indieweb_post (handleEvent env m s evt))"
proof (intro conjI impI)
  show "distinct (map uri (post (handleEvent env m (handleEvent env m s evt) evt)))"
    by (intro handleEvent_distinct_post assms)
  show "distinct (map uri (indieweb_post (handleEvent env m (handleEvent env m s evt) evt)))"
    by (intro handleEvent_distinct_indieweb_post assms)
next
  assume nodel: "deletedUris env evt = []"
  show "post (handleEvent env m (handleEvent env m s evt) evt) = post (handleEvent env m s evt)"
  proof (cases "isCommit env evt")
    case True
    have again: "map uri (stagedPosts env (handleEvent env m s evt) evt)
            = map uri (stagedPosts env s evt)"
      by (simp only: stagedPosts_def uris_postsToCreate)
    show ?thesis
      unfolding handleEvent_post [OF True] nodel deleteFrom_Nil
      by (rule insertInto_again [OF again])
  next
    case False
    then show ?thesis by (simp add: handleEvent_def)
  qed
next
  assume "deletedUris env evt = [] \<and> statelessOutcome env"
  then have nodel: "deletedUris env evt = []" and stateless: "statelessOutcome env"
    by simp_all
  show "indieweb_post (handleEvent env m (handleEvent env m s evt) evt)
          = indieweb_post (handleEvent env m s evt)"
  proof (cases "isCommit env evt")
    case True
    have again: "map uri (stagedIndiewebPosts env m (handleEvent env m s evt) evt)
            = map uri (stagedIndiewebPosts env m s evt)"
      unfolding stagedIndiewebPosts_def by (rule stageCreates_uris_stateless [OF stateless])
    show ?thesis
      unfolding handleEvent_indieweb_post [OF True] nodel deleteFrom_Nil
      by (rule insertInto_again [OF again])
  next
    case False
    then show ?thesis by (simp add: handleEvent_def)
  qed
qed

theorem handleEvent_twice_witness:
  "distinct (map uri (post emptyIndexer)) \<and> distinct (map uri (indieweb_post emptyIndexer))
   \<and> deletedUris (exampleEnv aliceDocs) aliceCommit = []
   \<and> statelessOutcome (exampleEnv aliceDocs)
   \<and> map uri (post (handleEvent (exampleEnv aliceDocs) Map.empty emptyIndexer aliceCommit))
       = [''at://did:plc:alice/app.bsky.feed.post/1'']
   \<and> post (handleEvent (exampleEnv aliceDocs) Map.empty
              (handleEvent (exampleEnv aliceDocs) Map.empty emptyIndexer aliceCommit) aliceCommit)
       = post (handleEvent (exampleEnv aliceDocs) Map.empty emptyIndexer aliceCommit)
   \<and> indieweb_post (handleEvent (exampleEnv aliceDocs) Map.empty
              (handleEvent (exampleEnv aliceDocs) Map.empty emptyIndexer aliceCommit) aliceCommit)
       = indieweb_post (handleEvent (exampleEnv aliceDocs) Map.empty emptyIndexer aliceCommit)
   \<and> distinct (map uri (indieweb_post (handleEvent (exampleEnv aliceDocs) Map.empty
              (handleEvent (exampleEnv aliceDocs) Map.empty emptyIndexer aliceCommit) aliceCommit)))"
proof -
  have d1: "distinct (map uri (post emptyIndexer))"
    and d2: "distinct (map uri (indieweb_post emptyIndexer))"
    by (simp_all add: emptyIndexer_def)
  have nodel: "deletedUris (exampleEnv aliceDocs) aliceCommit = []"
    by code_simp
  have stateless: "statelessOutcome (exampleEnv aliceDocs)"
    by (simp add: statelessOutcome_def exampleEnv_def)
  have once: "map uri (post (handleEvent (exampleEnv aliceDocs) Map.empty emptyIndexer aliceCommit))
       = [''at://did:plc:alice/app.bsky.feed.post/1'']"
    by code_simp
  from handleEvent_twice
         [OF d1 d2, where env = "exampleEnv aliceDocs" and m = Map.empty and evt = aliceCommit]
  show ?thesis
    using d1 d2 nodel stateless once by blast
qed

subsection \<open>C7: the lookup of a handle\<close>

text \<open>
  C7, as stated, fails: the array returned for a handle holds a domain once for each row
  of the file that names it. Here the file names one row twice (once in other letter
  case), and the lookup returns the domain twice.
\<close>

theorem lookup_duplicate_counterexample:
  "getDomainsForHandle (load (Content repeatedRows) Map.empty) ''alice.example''
     = [''blog.example'', ''blog.example'']
   \<and> \<not> distinct (getDomainsForHandle (load (Content repeatedRows) Map.empty) ''alice.example'')"
  by code_simp

text \<open>
  C7, amended: the lookup is case-insensitive in the handle and returns the empty array
  for a handle without mapping; after a load of a file content it returns, in the order of
  the file, the domain of every data row of the handle, so a domain occurs once for each
  row that names it.
\<close>

theorem lookup_rows:
  "(toLowerCase h1 = toLowerCase h2 \<longrightarrow>
      getDomainsForHandle mappings h1 = getDomainsForHandle mappings h2)
   \<and> (mappings (toLowerCase handle) = None \<longrightarrow> getDomainsForHandle mappings handle = [])
   \<and> getDomainsForHandle (load (Content content) mappings) handle
       = domainsOfRows (csvRows content) handle"
proof -
  have "getDomainsForHandle (parseContent content) handle = domainsOfRows (csvRows content) handle"
    unfolding parseContent_def csvRows_def getDomainsForHandle_loadLines
    by (simp add: getDomainsForHandle_def)
  then show ?thesis
    by (simp add: getDomainsForHandle_def load_def)
qed

theorem lookup_rows_witness:
  "toLowerCase ''Alice.Example'' = toLowerCase ''alice.example''
   \<and> getDomainsForHandle (parseContent repeatedRows) ''Alice.Example''
       = getDomainsForHandle (parseContent repeatedRows) ''alice.example''
   \<and> parseContent repeatedRows (toLowerCase ''bob.example'') = None
   \<and> getDomainsForHandle (parseContent repeatedRows) ''bob.example'' = []
   \<and> getDomainsForHandle (load (Content repeatedRows) (parseContent repeatedRows)) ''alice.example''
       = domainsOfRows (csvRows repeatedRows) ''alice.example''
   \<and> domainsOfRows (csvRows repeatedRows) ''alice.example'' = [''blog.example'', ''blog.example'']"
proof -
  have same: "toLowerCase ''Alice.Example'' = toLowerCase ''alice.example''"
    by code_simp
  have unmapped: "parseContent repeatedRows (toLowerCase ''bob.example'') = None"
    by code_simp
  have rows: "domainsOfRows (csvRows repeatedRows) ''alice.example''
                = [''blog.example'', ''blog.example'']"
    by code_simp
  from lookup_rows [where ?h1.0 = "''Alice.Example''" and ?h2.0 = "''alice.example''"
                      and mappings = "parseContent repeatedRows" and handle = "''bob.example''"
                      and content = repeatedRows]
  have insensitive: "getDomainsForHandle (parseContent repeatedRows) ''Alice.Example''
       = getDomainsForHandle (parseContent repeatedRows) ''alice.example''"
    and empty: "getDomainsForHandle (parseContent repeatedRows) ''bob.example'' = []"
    using same unmapped by blast+
  from lookup_rows [where ?h1.0 = "''Alice.Example''" and ?h2.0 = "''alice.example''"
                      and mappings = "parseContent repeatedRows" and handle = "''alice.example''"
                      and content = repeatedRows]
  have loaded: "getDomainsForHandle (load (Content repeatedRows) (parseContent repeatedRows))
                  ''alice.example''
       = domainsOfRows (csvRows repeatedRows) ''alice.example''"
    by blast
  show ?thesis
    using same insensitive unmapped empty loaded rows by blast
qed

subsection \<open>C8: the handle of a DID\<close>

text \<open>
  C8 says that an alias without the \<open>at://\<close> prefix is returned unchanged. The code
  removes the first \<open>at://\<close> wherever it stands in the alias: an alias that is a web
  address with \<open>at://\<close> inside it comes back altered.
\<close>

theorem getHandleFromDid_inner_scheme:
  "getHandleFromDid_try (Document \<lparr>alsoKnownAs = Some [''https://example.com/at://alice'']\<rparr>)
     = Inr (Some ''https://example.com/alice'')"
  by code_simp

subsection \<open>C9: the suffix test and letter case\<close>

text \<open>
  C9: the test for the suffix \<open>.bsky.social\<close> compares letter by letter, the comparison of
  domain and handle ignores case. So a handle that ends with the suffix only up to letter
  case, on a post with a link whose hostname equals the handle up to letter case, is
  admitted by the direct match alone (the registry has no domain for it here).
\<close>

theorem hasMatch_suffix_case:
  assumes "\<not> endsWith handle ''.bsky.social''"
      and "endsWith (toLowerCase handle) ''.bsky.social''"
      and "hostnameOf link = Some hostname"
      and "toLowerCase hostname = toLowerCase handle"
  shows "hasMatch hostnameOf handle [] (link # rest)"
proof -
  have "toLowerCase handle \<noteq> []"
    using assms(2) by (auto simp: endsWith_def)
  then have "toLowerCase hostname \<noteq> []"
    using assms(4) by simp
  moreover have "toLowerCase (toLowerCase hostname) = toLowerCase hostname"
    by (simp add: toLowerCase_def toLowerChar_idem)
  ultimately show ?thesis
    using assms by (simp add: getDomainFromUrl_def)
qed

theorem hasMatch_suffix_case_witness:
  "\<not> endsWith ''alice.Bsky.Social'' ''.bsky.social''
   \<and> endsWith (toLowerCase ''alice.Bsky.Social'') ''.bsky.social''
   \<and> exampleHostname ''https://alice.bsky.social/x'' = Some ''alice.bsky.social''
   \<and> hasMatch exampleHostname ''alice.Bsky.Social'' [] [''https://alice.bsky.social/x'']"
proof -
  have a: "\<not> endsWith ''alice.Bsky.Social'' ''.bsky.social''" by code_simp
  have b: "endsWith (toLowerCase ''alice.Bsky.Social'') ''.bsky.social''" by code_simp
  have c: "exampleHostname ''https://alice.bsky.social/x'' = Some ''alice.bsky.social''"
    by code_simp
  have d: "toLowerCase ''alice.bsky.social'' = toLowerCase ''alice.Bsky.Social''" by code_simp
  from hasMatch_suffix_case
         [where hostnameOf = exampleHostname and link = "''https://alice.bsky.social/x''"
            and rest = "[]", OF a b c d]
  show ?thesis
    using a b c by simp
qed

subsection \<open>C10: an event that is not a commit\<close>

text \<open>
  C10: on an event that is not a commit, \<open>handleEvent\<close> returns at once: the two tables
  are as they were, and so are the resolver's state and the clock.
\<close>

theorem handleEvent_not_commit:
  "\<not> isCommit env evt \<Longrightarrow> handleEvent env mappings s evt = s"
  by (simp add: handleEvent_def)

theorem handleEvent_not_commit_witness:
  "\<not> isCommit (exampleEnv aliceDocs) (Info ''seq'')
   \<and> handleEvent (exampleEnv aliceDocs) Map.empty emptyIndexer (Info ''seq'') = emptyIndexer"
proof -
  have other: "\<not> isCommit (exampleEnv aliceDocs) (Info ''seq'')"
    by (simp add: exampleEnv_def)
  from handleEvent_not_commit [OF other] show ?thesis
    using other by simp
qed

end
